theory Spec2Isabelle
  imports Main "HOL-Library.Word"
begin

unbundle bit_operations_syntax

section \<open>The data of \<^verbatim>\<open>file_encrypt.c\<close>\<close>

text \<open>
  A byte is an \<^verbatim>\<open>unsigned char\<close>. A C string argument (\<^verbatim>\<open>const char *\<close>) is the list
  of the bytes found from the pointer on; \<open>strlen\<close> counts them up to the first NUL, and a
  list with no NUL byte is followed by its terminator. A file system maps a file name to
  the bytes of the file.
\<close>

type_synonym byte = "8 word"
type_synonym path = string
type_synonym filesystem = "path \<Rightarrow> byte list option"

definition MAX_KEY_LENGTH :: nat where
  "MAX_KEY_LENGTH = 128"

definition BUFFER_SIZE :: nat where
  "BUFFER_SIZE = 4096"

definition MIN_KEY_LENGTH :: nat where
  "MIN_KEY_LENGTH = 4"

definition strlen :: "byte list \<Rightarrow> nat" where
  "strlen s = length (takeWhile (\<lambda>c. c \<noteq> 0) s)"

text \<open>
  What the program prints, one constructor for each \<^verbatim>\<open>printf\<close> of a diagnostic. The two
  messages of \<^verbatim>\<open>validateKey\<close> carry the number they print.
\<close>

datatype message =
    KeyTooShort nat           \<comment> \<open>ERROR: Key must be at least n characters long.\<close>
  | KeyTooLong nat            \<comment> \<open>ERROR: Key is too long (max n characters).\<close>
  | CannotOpenInput           \<comment> \<open>ERROR: Cannot open input file\<close>
  | CannotDetermineSize       \<comment> \<open>ERROR: Cannot determine file size\<close>
  | InputEmpty                \<comment> \<open>WARNING: Input file is empty.\<close>
  | CannotCreateOutput        \<comment> \<open>ERROR: Cannot create output file\<close>
  | WriteFailed               \<comment> \<open>ERROR: Write operation failed\<close>
  | ReadFailed                \<comment> \<open>ERROR: Read operation failed\<close>
  | CloseInputWarning         \<comment> \<open>WARNING: Error closing input file\<close>
  | CloseOutputWarning        \<comment> \<open>WARNING: Error closing output file\<close>

text \<open>
  The calls of the standard library that \<^verbatim>\<open>encryptFile\<close> makes, in the order it makes
  them. \<open>OpenedIn\<close> and \<open>OpenedOut\<close> stand for an \<^verbatim>\<open>fopen\<close> that gave a handle,
  \<open>ClosedIn\<close> and \<open>ClosedOut\<close> for the \<^verbatim>\<open>fclose\<close> of that handle, \<open>Read n\<close> for an
  \<^verbatim>\<open>fread\<close> that returned \<open>n\<close>, \<open>Wrote n m\<close> for an \<^verbatim>\<open>fwrite\<close> of \<open>n\<close> bytes
  that returned \<open>m\<close>.
\<close>

datatype event =
    OpenedIn
  | OpenedOut
  | Read nat
  | Wrote nat nat
  | Progress nat nat
  | Printed message
  | ClosedIn
  | ClosedOut

text \<open>
  The failures of the file system are inputs of the model. \<open>fread_error_at = Some b\<close>: the
  byte at offset \<open>b\<close> of the source cannot be read, so an \<^verbatim>\<open>fread\<close> that reaches it
  returns the bytes before it and sets the error indicator of the stream.
  \<open>fwrite_accepts i n\<close>: how many of the \<open>n\<close> bytes the \<open>i\<close>-th \<^verbatim>\<open>fwrite\<close> can
  write (it writes all of them when that is \<open>n\<close> or more).
  \<open>buffered_at_open\<close>: how many bytes of the source the stream \<^verbatim>\<open>inFile\<close> already holds in
  its buffer when the destination is opened; it matters only when both names are the
  same file. \<open>flushed_at_failed_close\<close>: how many of the bytes written are in the
  destination after an \<^verbatim>\<open>fclose\<close> of it that failed.
\<close>

record io_env =
  fopen_in_fails :: bool
  fseek_end_fails :: bool
  ftell_fails :: bool
  fseek_set_fails :: bool
  fopen_out_fails :: bool
  fread_error_at :: "nat option"
  fwrite_accepts :: "nat \<Rightarrow> nat \<Rightarrow> nat"
  fclose_in_fails :: bool
  fclose_out_fails :: bool
  buffered_at_open :: nat
  flushed_at_failed_close :: nat

text \<open>The locals of \<^verbatim>\<open>encryptFile\<close> and the two streams, while the loop runs.\<close>

record session =
  unread :: "byte list"
  delivered :: nat
  in_error :: bool
  written :: "byte list"
  wcalls :: nat
  totalProcessed :: nat
  result :: int
  events :: "event list"

text \<open>What a call of \<^verbatim>\<open>encryptFile\<close> leaves: its return value, the files, the calls made.\<close>

record outcome =
  ret :: int
  files :: filesystem
  trace :: "event list"

section \<open>The functions\<close>

text \<open>\<^verbatim>\<open>validateKey\<close>: the return value and what was printed.\<close>

definition validateKey :: "byte list \<Rightarrow> int \<times> message list" where
  "validateKey key =
     (let len = strlen key in
      if len < MIN_KEY_LENGTH then (- 1, [KeyTooShort MIN_KEY_LENGTH])
      else if len \<ge> MAX_KEY_LENGTH - 1 then (- 1, [KeyTooLong (MAX_KEY_LENGTH - 1)])
      else (0, []))"

text \<open>
  \<^verbatim>\<open>xorCipher\<close>: the \<^verbatim>\<open>for\<close> loop from index \<open>i\<close> on. The list \<open>data\<close> is the first
  \<^verbatim>\<open>dataLen\<close> bytes of the buffer. \<open>None\<close> is undefined behaviour: \<^verbatim>\<open>i % keyLen\<close> with
  \<^verbatim>\<open>keyLen\<close> zero, or a read beyond the key.
\<close>

function xorCipher_from :: "nat \<Rightarrow> byte list \<Rightarrow> byte list \<Rightarrow> nat \<Rightarrow> byte list option" where
  "xorCipher_from i data key keyLen =
     (if i < length data then
        (if keyLen = 0 \<or> length key \<le> i mod keyLen then None
         else xorCipher_from (Suc i) (data[i := data ! i XOR key ! (i mod keyLen)]) key keyLen)
      else Some data)"
  by pat_completeness auto
termination
  by (relation "measure (\<lambda>(i, data, key, keyLen). length data - i)") auto

declare xorCipher_from.simps [simp del]

definition xorCipher :: "byte list \<Rightarrow> byte list \<Rightarrow> nat \<Rightarrow> byte list option" where
  "xorCipher data key keyLen = xorCipher_from 0 data key keyLen"

text \<open>\<^verbatim>\<open>getFileSize\<close> on a stream over \<open>content\<close>: the size, or -1.\<close>

definition getFileSize :: "io_env \<Rightarrow> byte list \<Rightarrow> int" where
  "getFileSize env content =
     (if fseek_end_fails env then - 1
      else if ftell_fails env then - 1
      else if fseek_set_fails env then - 1
      else int (length content))"

text \<open>
  \<^verbatim>\<open>fread(buffer, 1, n, inFile)\<close>: on a file it returns \<open>n\<close> bytes unless the end of the
  file or an error comes first.
\<close>

definition fread :: "nat \<Rightarrow> io_env \<Rightarrow> session \<Rightarrow> byte list \<times> session" where
  "fread n env s =
     (let want = min n (length (unread s));
          got = (case fread_error_at env of
                   None \<Rightarrow> want
                 | Some b \<Rightarrow> min want (b - delivered s))
      in (take got (unread s),
          s\<lparr>unread := drop got (unread s),
            delivered := delivered s + got,
            in_error := (in_error s \<or> got < want),
            events := events s @ [Read got]\<rparr>))"

lemma fread_shrinks:
  assumes "fread n env s = (buffer, s1)" and "buffer \<noteq> []"
  shows "length (unread s1) < length (unread s)"
proof -
  let ?want = "min n (length (unread s))"
  let ?got = "case fread_error_at env of None \<Rightarrow> ?want | Some b \<Rightarrow> min ?want (b - delivered s)"
  from assms(1) have b: "buffer = take ?got (unread s)" and u: "unread s1 = drop ?got (unread s)"
    by (auto simp: fread_def Let_def)
  from b assms(2) have "0 < ?got" and "unread s \<noteq> []"
    by (cases "?got"; auto)+
  with u show ?thesis by simp
qed

text \<open>
  The \<^verbatim>\<open>while\<close> loop of \<^verbatim>\<open>encryptFile\<close>, with the capacity of the buffer (the macro
  \<^verbatim>\<open>BUFFER_SIZE\<close>) as the parameter \<open>cap\<close>.
\<close>

function transform_loop ::
  "nat \<Rightarrow> io_env \<Rightarrow> byte list \<Rightarrow> nat \<Rightarrow> nat \<Rightarrow> session \<Rightarrow> session option" where
  "transform_loop cap env key keyLen fileSize s =
     (case fread cap env s of
        (buffer, s1) \<Rightarrow>
          if length buffer > 0 then
            (case xorCipher buffer key keyLen of
               None \<Rightarrow> None
             | Some buffer' \<Rightarrow>
                 let bytesRead = length buffer;
                     bytesWritten = min bytesRead (fwrite_accepts env (wcalls s1) bytesRead);
                     s2 = s1\<lparr>written := written s1 @ take bytesWritten buffer',
                             wcalls := Suc (wcalls s1),
                             events := events s1 @ [Wrote bytesRead bytesWritten]\<rparr>
                 in if bytesWritten \<noteq> bytesRead
                    then Some (s2\<lparr>result := - 1, events := events s2 @ [Printed WriteFailed]\<rparr>)
                    else transform_loop cap env key keyLen fileSize
                           (s2\<lparr>totalProcessed := totalProcessed s2 + bytesRead,
                               events := events s2 @
                                 [Progress (totalProcessed s2 + bytesRead) fileSize]\<rparr>))
          else Some s1)"
  by pat_completeness auto
termination
  apply (relation "measure (\<lambda>(cap, env, key, keyLen, fileSize, s). length (unread s))")
   apply simp
  apply clarsimp
  apply (drule sym)
  apply (drule fread_shrinks)
   apply simp_all
  done

declare transform_loop.simps [simp del]

text \<open>
  The locals of \<^verbatim>\<open>encryptFile\<close> as it initialises them, and the two streams once both
  files are open. Opening the destination with mode \<^verbatim>\<open>"wb"\<close> creates it empty; when
  both names are the same file, what is left to read is what the stream \<^verbatim>\<open>inFile\<close> had
  in its buffer before.
\<close>

definition initial_session :: "io_env \<Rightarrow> path \<Rightarrow> path \<Rightarrow> byte list \<Rightarrow> session" where
  "initial_session env inputFile outputFile content =
     \<lparr>unread = (if inputFile = outputFile then take (buffered_at_open env) content else content),
      delivered = 0, in_error = False, written = [], wcalls = 0,
      totalProcessed = 0, result = 0, events = [OpenedIn, OpenedOut]\<rparr>"

text \<open>
  The end of \<^verbatim>\<open>encryptFile\<close>, after the loop: the test of \<^verbatim>\<open>ferror(inFile)\<close>, the two
  \<^verbatim>\<open>fclose\<close>, the return. The bytes that \<^verbatim>\<open>fwrite\<close> took are all in the destination
  once its \<^verbatim>\<open>fclose\<close> has succeeded; when it fails, only some of them are.
\<close>

definition close_files :: "io_env \<Rightarrow> filesystem \<Rightarrow> path \<Rightarrow> session \<Rightarrow> outcome" where
  "close_files env fs outputFile s =
     (let result1 = (if in_error s then - 1 else result s);
          events1 = events s @ (if in_error s then [Printed ReadFailed] else []);
          events2 = events1 @ [ClosedIn] @
            (if fclose_in_fails env then [Printed CloseInputWarning] else []);
          result2 = (if fclose_out_fails env then - 1 else result1);
          events3 = events2 @ [ClosedOut] @
            (if fclose_out_fails env then [Printed CloseOutputWarning] else []);
          stored = (if fclose_out_fails env then take (flushed_at_failed_close env) (written s)
                    else written s)
      in \<lparr>ret = result2, files = fs(outputFile \<mapsto> stored), trace = events3\<rparr>)"

text \<open>
  \<^verbatim>\<open>encryptFile\<close>, for a buffer of \<open>cap\<close> bytes. \<open>None\<close> is the undefined behaviour of
  \<^verbatim>\<open>xorCipher\<close>.
\<close>

definition encryptFile_chunked ::
  "nat \<Rightarrow> io_env \<Rightarrow> filesystem \<Rightarrow> path \<Rightarrow> path \<Rightarrow> byte list \<Rightarrow> outcome option" where
  "encryptFile_chunked cap env fs inputFile outputFile key =
     (let keyLen = strlen key in
      case (if fopen_in_fails env then None else fs inputFile) of
        None \<Rightarrow> Some \<lparr>ret = - 1, files = fs, trace = [Printed CannotOpenInput]\<rparr>
      | Some content \<Rightarrow>
          let fileSize = getFileSize env content in
          if fileSize = - 1 then
            Some \<lparr>ret = - 1, files = fs,
                  trace = [OpenedIn, Printed CannotDetermineSize, ClosedIn]\<rparr>
          else if fileSize = 0 then
            Some \<lparr>ret = - 1, files = fs, trace = [OpenedIn, Printed InputEmpty, ClosedIn]\<rparr>
          else if fopen_out_fails env then
            Some \<lparr>ret = - 1, files = fs,
                  trace = [OpenedIn, Printed CannotCreateOutput, ClosedIn]\<rparr>
          else
            (case transform_loop cap env key keyLen (nat fileSize)
                    (initial_session env inputFile outputFile content) of
               None \<Rightarrow> None
             | Some s \<Rightarrow> Some (close_files env fs outputFile s)))"

definition encryptFile :: "io_env \<Rightarrow> filesystem \<Rightarrow> path \<Rightarrow> path \<Rightarrow> byte list \<Rightarrow> outcome option" where
  "encryptFile env fs inputFile outputFile key =
     encryptFile_chunked BUFFER_SIZE env fs inputFile outputFile key"

definition decryptFile :: "io_env \<Rightarrow> filesystem \<Rightarrow> path \<Rightarrow> path \<Rightarrow> byte list \<Rightarrow> outcome option" where
  "decryptFile env fs inputFile outputFile key = encryptFile env fs inputFile outputFile key"

section \<open>The formulas of the specification\<close>

text \<open>
  The specification's own transform, with its running offset: byte \<open>i\<close> of the buffer is
  combined with the key byte at \<open>(start_offset + i) mod key_length\<close>.
\<close>

definition spec_transform :: "byte list \<Rightarrow> byte list \<Rightarrow> nat \<Rightarrow> nat \<Rightarrow> byte list" where
  "spec_transform buffer key key_length start_offset =
     map (\<lambda>i. buffer ! i XOR key ! ((start_offset + i) mod key_length)) [0..<length buffer]"

text \<open>
  Global cycling: the byte at position \<open>j\<close> of the whole file meets the key byte at
  \<open>j mod keyLen\<close>.
\<close>

definition global_cycling :: "byte list \<Rightarrow> nat \<Rightarrow> byte list \<Rightarrow> byte list" where
  "global_cycling key keyLen D = spec_transform D key keyLen 0"

text \<open>
  Cycling that starts again with every chunk of \<open>cap\<close> bytes: the byte at position \<open>j\<close> meets
  the key byte at \<open>(j mod cap) mod keyLen\<close>.
\<close>

definition chunk_cycling :: "nat \<Rightarrow> byte list \<Rightarrow> nat \<Rightarrow> byte list \<Rightarrow> byte list" where
  "chunk_cycling cap key keyLen D =
     map (\<lambda>j. D ! j XOR key ! ((j mod cap) mod keyLen)) [0..<length D]"

text \<open>A file system on which no call fails.\<close>

definition fault_free :: "io_env \<Rightarrow> bool" where
  "fault_free env \<longleftrightarrow>
     \<not> fopen_in_fails env \<and> \<not> fseek_end_fails env \<and> \<not> ftell_fails env \<and>
     \<not> fseek_set_fails env \<and> \<not> fopen_out_fails env \<and> fread_error_at env = None \<and>
     (\<forall>i n. n \<le> fwrite_accepts env i n) \<and>
     \<not> fclose_in_fails env \<and> \<not> fclose_out_fails env"

text \<open>The three calls of \<^verbatim>\<open>getFileSize\<close> succeed.\<close>

definition size_known :: "io_env \<Rightarrow> bool" where
  "size_known env \<longleftrightarrow> \<not> fseek_end_fails env \<and> \<not> ftell_fails env \<and> \<not> fseek_set_fails env"

definition reliable :: io_env where
  "reliable =
     \<lparr>fopen_in_fails = False, fseek_end_fails = False, ftell_fails = False,
      fseek_set_fails = False, fopen_out_fails = False, fread_error_at = None,
      fwrite_accepts = (\<lambda>i n. n), fclose_in_fails = False, fclose_out_fails = False,
      buffered_at_open = 0, flushed_at_failed_close = 0\<rparr>"

text \<open>
  An \<^verbatim>\<open>fwrite\<close> that returned less than it was asked for, and the events of a turn of the
  loop that goes on: a read, a complete write, a progress report.
\<close>

fun short_write :: "event \<Rightarrow> bool" where
  "short_write (Wrote n m) = (m < n)"
| "short_write _ = False"

fun orderly :: "event \<Rightarrow> bool" where
  "orderly (Read n) = True"
| "orderly (Wrote n m) = (m = n)"
| "orderly (Progress n m) = True"
| "orderly _ = False"

fun transfers :: "event \<Rightarrow> bool" where
  "transfers (Read n) = True"
| "transfers (Wrote n m) = True"
| "transfers _ = False"

section \<open>The cipher\<close>

lemma strlen_le: "strlen key \<le> length key"
  unfolding strlen_def by (rule length_takeWhile_le)

lemma xorCipher_from_closed:
  assumes "0 < keyLen" and "keyLen \<le> length key"
  shows "xorCipher_from i data key keyLen =
    Some (take i data @ map (\<lambda>j. data ! j XOR key ! (j mod keyLen)) [i..<length data])"
  using assms
proof (induction i data key keyLen rule: xorCipher_from.induct)
  case (1 i data key keyLen)
  show ?case
  proof (cases "i < length data")
    case False
    then show ?thesis by (subst xorCipher_from.simps) simp
  next
    case True
    let ?v = "data ! i XOR key ! (i mod keyLen)"
    let ?data' = "data[i := ?v]"
    from "1.prems" have idx: "i mod keyLen < length key"
      by (meson less_le_trans mod_less_divisor)
    have step: "xorCipher_from i data key keyLen = xorCipher_from (Suc i) ?data' key keyLen"
      using True "1.prems" idx by (subst xorCipher_from.simps) simp
    have ih: "xorCipher_from (Suc i) ?data' key keyLen =
      Some (take (Suc i) ?data' @
        map (\<lambda>j. ?data' ! j XOR key ! (j mod keyLen)) [Suc i..<length ?data'])"
      using "1.IH" True "1.prems" idx by simp
    have t: "take (Suc i) ?data' = take i data @ [?v]"
      using True by (simp add: take_Suc_conv_app_nth)
    have m: "map (\<lambda>j. ?data' ! j XOR key ! (j mod keyLen)) [Suc i..<length ?data'] =
      map (\<lambda>j. data ! j XOR key ! (j mod keyLen)) [Suc i..<length data]"
      by (rule map_cong) auto
    have u: "[i..<length data] = i # [Suc i..<length data]"
      using True by (simp add: upt_conv_Cons)
    show ?thesis
      unfolding step ih t m u by simp
  qed
qed

lemma xorCipher_closed:
  assumes "0 < keyLen" and "keyLen \<le> length key"
  shows "xorCipher data key keyLen = Some (global_cycling key keyLen data)"
  unfolding xorCipher_def global_cycling_def spec_transform_def
  by (simp add: xorCipher_from_closed [OF assms])

lemma xorCipher_undefined:
  assumes "keyLen = 0" and "data \<noteq> []"
  shows "xorCipher data key keyLen = None"
  unfolding xorCipher_def using assms by (subst xorCipher_from.simps) simp

lemma length_global_cycling [simp]: "length (global_cycling key keyLen D) = length D"
  by (simp add: global_cycling_def spec_transform_def)

lemma length_chunk_cycling [simp]: "length (chunk_cycling cap key keyLen D) = length D"
  by (simp add: chunk_cycling_def)

lemma chunk_cycling_Nil [simp]: "chunk_cycling cap key keyLen [] = []"
  by (simp add: chunk_cycling_def)

lemma chunk_cycling_split:
  assumes "0 < cap"
  shows "chunk_cycling cap key keyLen D =
    global_cycling key keyLen (take cap D) @ chunk_cycling cap key keyLen (drop cap D)"
proof (rule nth_equalityI)
  show "length (chunk_cycling cap key keyLen D) =
    length (global_cycling key keyLen (take cap D) @ chunk_cycling cap key keyLen (drop cap D))"
    by simp
next
  fix j assume "j < length (chunk_cycling cap key keyLen D)"
  then have j: "j < length D" by simp
  show "chunk_cycling cap key keyLen D ! j =
    (global_cycling key keyLen (take cap D) @ chunk_cycling cap key keyLen (drop cap D)) ! j"
  proof (cases "j < cap")
    case True
    with j show ?thesis
      by (simp add: nth_append chunk_cycling_def global_cycling_def spec_transform_def)
  next
    case False
    then have m: "(j - cap) mod cap = j mod cap"
      by (simp add: le_mod_geq)
    from False j have l: "j - cap < length D - cap" and c: "cap + (j - cap) = j"
      by simp_all
    from False j have "(global_cycling key keyLen (take cap D) @
        chunk_cycling cap key keyLen (drop cap D)) ! j =
        chunk_cycling cap key keyLen (drop cap D) ! (j - cap)"
      by (simp add: nth_append min_def)
    also have "\<dots> = D ! j XOR key ! ((j mod cap) mod keyLen)"
      using l c m by (simp add: chunk_cycling_def)
    also have "\<dots> = chunk_cycling cap key keyLen D ! j"
      using j by (simp add: chunk_cycling_def)
    finally show ?thesis by simp
  qed
qed

lemma chunk_cycling_involution:
  "chunk_cycling cap key keyLen (chunk_cycling cap key keyLen D) = D"
  by (rule nth_equalityI) (simp_all add: chunk_cycling_def xor.assoc)

lemma chunk_cycling_global:
  assumes "keyLen dvd cap \<or> length D \<le> cap"
  shows "chunk_cycling cap key keyLen D = global_cycling key keyLen D"
proof (rule nth_equalityI)
  show "length (chunk_cycling cap key keyLen D) = length (global_cycling key keyLen D)" by simp
next
  fix j assume "j < length (chunk_cycling cap key keyLen D)"
  then have j: "j < length D" by simp
  have "(j mod cap) mod keyLen = j mod keyLen"
  proof (cases "keyLen dvd cap")
    case True
    then show ?thesis by (rule mod_mod_cancel)
  next
    case False
    with assms j have "j < cap" by simp
    then show ?thesis by simp
  qed
  with j show "chunk_cycling cap key keyLen D ! j = global_cycling key keyLen D ! j"
    by (simp add: chunk_cycling_def global_cycling_def spec_transform_def)
qed

text \<open>Applied twice with the same key, \<^verbatim>\<open>xorCipher\<close> gives the buffer back.\<close>

lemma global_cycling_involution:
  "global_cycling key keyLen (global_cycling key keyLen D) = D"
  by (rule nth_equalityI) (simp_all add: global_cycling_def spec_transform_def xor.assoc)

lemma xorCipher_twice:
  assumes "0 < keyLen" and "keyLen \<le> length key"
  shows "Option.bind (xorCipher data key keyLen) (\<lambda>d. xorCipher d key keyLen) = Some data"
  by (simp add: xorCipher_closed [OF assms] global_cycling_involution)

section \<open>One turn of the loop\<close>

lemma loop_stop:
  assumes "fread cap env s = (buffer, s1)" and "buffer = []"
  shows "transform_loop cap env key keyLen fileSize s = Some s1"
  using assms by (subst transform_loop.simps) simp

lemma loop_undefined:
  assumes "fread cap env s = (buffer, s1)" and "buffer \<noteq> []"
    and "xorCipher buffer key keyLen = None"
  shows "transform_loop cap env key keyLen fileSize s = None"
  using assms by (subst transform_loop.simps) simp

lemma loop_short_write:
  assumes "fread cap env s = (buffer, s1)" and "buffer \<noteq> []"
    and "xorCipher buffer key keyLen = Some buffer'"
    and "w = min (length buffer) (fwrite_accepts env (wcalls s1) (length buffer))"
    and "w \<noteq> length buffer"
  shows "transform_loop cap env key keyLen fileSize s =
    Some (s1\<lparr>written := written s1 @ take w buffer', wcalls := Suc (wcalls s1),
      events := events s1 @ [Wrote (length buffer) w, Printed WriteFailed], result := - 1\<rparr>)"
  using assms by (subst transform_loop.simps) (auto simp: Let_def)

lemma loop_again:
  assumes "fread cap env s = (buffer, s1)" and "buffer \<noteq> []"
    and "xorCipher buffer key keyLen = Some buffer'"
    and "min (length buffer) (fwrite_accepts env (wcalls s1) (length buffer)) = length buffer"
  shows "transform_loop cap env key keyLen fileSize s =
    transform_loop cap env key keyLen fileSize
      (s1\<lparr>written := written s1 @ take (length buffer) buffer', wcalls := Suc (wcalls s1),
        totalProcessed := totalProcessed s1 + length buffer,
        events := events s1 @ [Wrote (length buffer) (length buffer),
          Progress (totalProcessed s1 + length buffer) fileSize]\<rparr>)"
  using assms by (subst transform_loop.simps) (simp add: Let_def)

lemma loop_induct [case_names stop undefined short_write again]:
  assumes stop: "\<And>s s1. fread cap env s = ([], s1) \<Longrightarrow> P s (Some s1)"
    and undefined: "\<And>s buffer s1. fread cap env s = (buffer, s1) \<Longrightarrow> buffer \<noteq> [] \<Longrightarrow>
      xorCipher buffer key keyLen = None \<Longrightarrow> P s None"
    and short_write: "\<And>s buffer s1 buffer' w. fread cap env s = (buffer, s1) \<Longrightarrow> buffer \<noteq> [] \<Longrightarrow>
      xorCipher buffer key keyLen = Some buffer' \<Longrightarrow>
      w = min (length buffer) (fwrite_accepts env (wcalls s1) (length buffer)) \<Longrightarrow>
      w < length buffer \<Longrightarrow>
      P s (Some (s1\<lparr>written := written s1 @ take w buffer', wcalls := Suc (wcalls s1),
        events := events s1 @ [Wrote (length buffer) w, Printed WriteFailed], result := - 1\<rparr>))"
    and again: "\<And>s buffer s1 buffer' s2. fread cap env s = (buffer, s1) \<Longrightarrow> buffer \<noteq> [] \<Longrightarrow>
      xorCipher buffer key keyLen = Some buffer' \<Longrightarrow>
      length buffer \<le> fwrite_accepts env (wcalls s1) (length buffer) \<Longrightarrow>
      s2 = s1\<lparr>written := written s1 @ take (length buffer) buffer', wcalls := Suc (wcalls s1),
        totalProcessed := totalProcessed s1 + length buffer,
        events := events s1 @ [Wrote (length buffer) (length buffer),
          Progress (totalProcessed s1 + length buffer) fileSize]\<rparr> \<Longrightarrow>
      P s2 (transform_loop cap env key keyLen fileSize s2) \<Longrightarrow>
      P s (transform_loop cap env key keyLen fileSize s2)"
  shows "P s (transform_loop cap env key keyLen fileSize s)"
proof (induction "length (unread s)" arbitrary: s rule: less_induct)
  case less
  obtain buffer s1 where f: "fread cap env s = (buffer, s1)"
    by (cases "fread cap env s")
  show ?case
  proof (cases "buffer = []")
    case True
    with f stop [of s s1] loop_stop [OF f True] show ?thesis by simp
  next
    case ne: False
    show ?thesis
    proof (cases "xorCipher buffer key keyLen")
      case None
      with undefined [OF f ne None] loop_undefined [OF f ne None] show ?thesis by simp
    next
      case (Some buffer')
      let ?w = "min (length buffer) (fwrite_accepts env (wcalls s1) (length buffer))"
      show ?thesis
      proof (cases "?w = length buffer")
        case False
        then have "?w < length buffer" by simp
        from short_write [OF f ne Some refl this] loop_short_write [OF f ne Some refl False]
        show ?thesis by simp
      next
        case True
        let ?s2 = "s1\<lparr>written := written s1 @ take (length buffer) buffer',
          wcalls := Suc (wcalls s1), totalProcessed := totalProcessed s1 + length buffer,
          events := events s1 @ [Wrote (length buffer) (length buffer),
            Progress (totalProcessed s1 + length buffer) fileSize]\<rparr>"
        have "length (unread ?s2) < length (unread s)"
          using fread_shrinks [OF f ne] by simp
        then have ih: "P ?s2 (transform_loop cap env key keyLen fileSize ?s2)"
          by (rule less)
        from True have le: "length buffer \<le> fwrite_accepts env (wcalls s1) (length buffer)"
          by simp
        from again [OF f ne Some le refl ih] loop_again [OF f ne Some True]
        show ?thesis by simp
      qed
    qed
  qed
qed

lemma fread_frame:
  assumes "fread cap env s = (buffer, s1)"
  shows "written s1 = written s" and "result s1 = result s" and "wcalls s1 = wcalls s"
    and "totalProcessed s1 = totalProcessed s"
    and "events s1 = events s @ [Read (length buffer)]"
    and "in_error s \<Longrightarrow> in_error s1"
  using assms by (auto simp: fread_def Let_def split: option.splits)

lemma fread_complete:
  assumes "fread cap env s = (buffer, s1)" and "\<not> in_error s1"
  shows "buffer = take cap (unread s)" and "unread s1 = drop cap (unread s)"
  using assms by (auto simp: fread_def Let_def not_less split: option.splits)

lemma fread_no_error:
  assumes "fread cap env s = (buffer, s1)" and "fread_error_at env = None"
  shows "buffer = take cap (unread s)" and "unread s1 = drop cap (unread s)"
    and "in_error s1 = in_error s"
  using assms by (auto simp: fread_def Let_def min_def)

section \<open>What the loop writes\<close>

lemma loop_defined:
  assumes "0 < keyLen" and "keyLen \<le> length key"
  shows "transform_loop cap env key keyLen fileSize s \<noteq> None"
proof (induction s rule: loop_induct [where cap = cap and env = env and key = key
      and keyLen = keyLen and fileSize = fileSize])
  case (undefined s buffer s1)
  with xorCipher_closed [OF assms, of buffer] show ?case by simp
qed simp_all

lemma loop_success_output:
  assumes "0 < cap" and "0 < keyLen" and "keyLen \<le> length key"
  shows "transform_loop cap env key keyLen fileSize s = Some s' \<longrightarrow>
      (in_error s \<longrightarrow> in_error s') \<and>
      (result s = 0 \<longrightarrow> result s' = 0 \<longrightarrow> \<not> in_error s' \<longrightarrow>
        written s' = written s @ chunk_cycling cap key keyLen (unread s))"
proof (induction s rule: loop_induct [where cap = cap and env = env and key = key
      and keyLen = keyLen and fileSize = fileSize])
  case (stop s s1)
  show ?case
  proof (intro impI conjI)
    assume "Some s1 = Some s'" and "in_error s"
    with fread_frame(6) [OF stop] show "in_error s'" by simp
  next
    assume eq: "Some s1 = Some s'" and "\<not> in_error s'"
    then have ne: "\<not> in_error s1" by simp
    from fread_complete(1) [OF stop ne] assms(1) have "unread s = []"
      by (cases "unread s") (auto simp: take_Cons')
    with eq fread_frame(1) [OF stop] show "written s' = written s @ chunk_cycling cap key keyLen (unread s)"
      by simp
  qed
next
  case (undefined s buffer s1)
  show ?case by simp
next
  case (short_write s buffer s1 buffer' w)
  from fread_frame(6) [OF short_write(1)] show ?case by auto
next
  case (again s buffer s1 buffer' s2)
  show ?case
  proof (intro impI conjI)
    assume "transform_loop cap env key keyLen fileSize s2 = Some s'" and "in_error s"
    with again(5,6) fread_frame(6) [OF again(1)] show "in_error s'" by simp
  next
    assume run: "transform_loop cap env key keyLen fileSize s2 = Some s'"
      and r: "result s = 0" "result s' = 0" and ne: "\<not> in_error s'"
    from run again(6) ne have "\<not> in_error s2" by auto
    with again(5) have ne1: "\<not> in_error s1" by simp
    note b = fread_complete [OF again(1) ne1]
    from again(3) xorCipher_closed [OF assms(2,3), of buffer]
    have b': "buffer' = global_cycling key keyLen buffer" by simp
    from again(5) fread_frame(2) [OF again(1)] r have "result s2 = 0" by simp
    with run again(6) r ne
    have "written s' = written s2 @ chunk_cycling cap key keyLen (unread s2)" by simp
    also have "written s2 = written s @ global_cycling key keyLen (take cap (unread s))"
      using again(5) fread_frame(1) [OF again(1)] b b' by simp
    also have "unread s2 = drop cap (unread s)"
      using again(5) b by simp
    finally show "written s' = written s @ chunk_cycling cap key keyLen (unread s)"
      using chunk_cycling_split [OF assms(1), of key keyLen "unread s"] by simp
  qed
qed

lemma loop_fault_free:
  assumes "0 < cap" and "0 < keyLen" and "keyLen \<le> length key"
    and "fread_error_at env = None" and "\<And>i n. n \<le> fwrite_accepts env i n"
  shows "\<exists>s'. transform_loop cap env key keyLen fileSize s = Some s' \<and>
      result s' = result s \<and> in_error s' = in_error s"
proof (induction s rule: loop_induct [where cap = cap and env = env and key = key
      and keyLen = keyLen and fileSize = fileSize])
  case (stop s s1)
  with fread_frame(2) [OF stop] fread_no_error(3) [OF stop assms(4)] show ?case by simp
next
  case (undefined s buffer s1)
  with xorCipher_closed [OF assms(2,3), of buffer] show ?case by simp
next
  case (short_write s buffer s1 buffer' w)
  with assms(5) [of "length buffer" "wcalls s1"] show ?case by simp
next
  case (again s buffer s1 buffer' s2)
  with fread_frame(2) [OF again(1)] fread_no_error(3) [OF again(1) assms(4)] show ?case by simp
qed

lemma loop_env_cong:
  assumes "fread_error_at env' = fread_error_at env" and "fwrite_accepts env' = fwrite_accepts env"
  shows "transform_loop cap env' key keyLen fileSize s = transform_loop cap env key keyLen fileSize s"
proof (induction s rule: loop_induct [where cap = cap and env = env and key = key
      and keyLen = keyLen and fileSize = fileSize])
  case (stop s s1)
  with assms have "fread cap env' s = ([], s1)" by (simp add: fread_def)
  then show ?case by (rule loop_stop) simp
next
  case (undefined s buffer s1)
  with assms have "fread cap env' s = (buffer, s1)" by (simp add: fread_def)
  then show ?case using undefined(2,3) by (rule loop_undefined)
next
  case (short_write s buffer s1 buffer' w)
  with assms have f: "fread cap env' s = (buffer, s1)" by (simp add: fread_def)
  from short_write assms(2)
  have w: "w = min (length buffer) (fwrite_accepts env' (wcalls s1) (length buffer))"
    and "w \<noteq> length buffer" by simp_all
  from loop_short_write [OF f short_write(2,3) this] show ?case .
next
  case (again s buffer s1 buffer' s2)
  with assms have f: "fread cap env' s = (buffer, s1)" by (simp add: fread_def)
  from again(4) assms(2)
  have "min (length buffer) (fwrite_accepts env' (wcalls s1) (length buffer)) = length buffer"
    by simp
  from loop_again [OF f again(2,3) this, of fileSize] again(5,6) show ?case by simp
qed

section \<open>The calls the loop makes\<close>

lemma orderly_not_short: "orderly e \<Longrightarrow> \<not> short_write e"
  by (cases e) simp_all

lemma loop_trace:
  "transform_loop cap env key keyLen fileSize s = Some s' \<longrightarrow>
     (\<exists>ext. events s' = events s @ ext \<and> list_all orderly ext \<and> result s' = result s) \<or>
     (\<exists>ext n m. events s' = events s @ ext @ [Wrote n m, Printed WriteFailed] \<and>
        list_all orderly ext \<and> m < n \<and> result s' = - 1)"
proof (induction s rule: loop_induct [where cap = cap and env = env and key = key
      and keyLen = keyLen and fileSize = fileSize])
  case (stop s s1)
  from fread_frame(2,5) [OF stop] show ?case by auto
next
  case (undefined s buffer s1)
  show ?case by simp
next
  case (short_write s buffer s1 buffer' w)
  from fread_frame(5) [OF short_write(1)] short_write(5)
  have "events s1 @ [Wrote (length buffer) w, Printed WriteFailed] =
      events s @ [Read (length buffer)] @ [Wrote (length buffer) w, Printed WriteFailed]"
    and "list_all orderly [Read (length buffer)]" and "w < length buffer"
    by simp_all
  then show ?case by (intro impI disjI2 exI [of _ "[Read (length buffer)]"] exI) auto
next
  case (again s buffer s1 buffer' s2)
  let ?turn = "[Read (length buffer), Wrote (length buffer) (length buffer),
    Progress (totalProcessed s1 + length buffer) fileSize]"
  from again(5) fread_frame(2,5) [OF again(1)]
  have e: "events s2 = events s @ ?turn" and r: "result s2 = result s" by simp_all
  have o: "list_all orderly ?turn" by simp
  show ?case
  proof
    assume "transform_loop cap env key keyLen fileSize s2 = Some s'"
    with again(6) consider
      (quiet) ext where "events s' = events s2 @ ext" "list_all orderly ext" "result s' = result s2"
      | (broke) ext n m where "events s' = events s2 @ ext @ [Wrote n m, Printed WriteFailed]"
          "list_all orderly ext" "m < n" "result s' = - 1"
      by blast
    then show "(\<exists>ext. events s' = events s @ ext \<and> list_all orderly ext \<and> result s' = result s) \<or>
     (\<exists>ext n m. events s' = events s @ ext @ [Wrote n m, Printed WriteFailed] \<and>
        list_all orderly ext \<and> m < n \<and> result s' = - 1)"
    proof cases
      case quiet
      with e r o have "events s' = events s @ (?turn @ ext)" "list_all orderly (?turn @ ext)"
        "result s' = result s" by simp_all
      then show ?thesis by blast
    next
      case broke
      with e o have "events s' = events s @ (?turn @ ext) @ [Wrote n m, Printed WriteFailed]"
        "list_all orderly (?turn @ ext)" by simp_all
      with broke(3,4) show ?thesis by blast
    qed
  qed
qed

lemma unique_split:
  assumes "xs @ a # ys = xs' @ b # ys'" and "Q b"
    and "list_all (\<lambda>e. \<not> Q e) xs" and "list_all (\<lambda>e. \<not> Q e) ys"
  shows "xs' = xs \<and> b = a \<and> ys' = ys"
  using assms
proof (induction xs arbitrary: xs')
  case Nil
  then show ?case by (cases xs') (auto simp: list_all_iff)
next
  case (Cons x xs)
  then show ?case by (cases xs') (auto simp: list_all_iff)
qed

section \<open>The paths through \<^verbatim>\<open>encryptFile\<close>\<close>

lemma getFileSize_known: "size_known env \<Longrightarrow> getFileSize env content = int (length content)"
  by (simp add: getFileSize_def size_known_def)

lemma getFileSize_unknown: "\<not> size_known env \<Longrightarrow> getFileSize env content = - 1"
  by (auto simp: getFileSize_def size_known_def)

lemma encryptFile_chunked_cases [consumes 1, case_names no_input no_size empty no_output ran]:
  assumes "encryptFile_chunked cap env fs inputFile outputFile key = Some r"
  obtains
    (no_input) "fopen_in_fails env \<or> fs inputFile = None"
      "r = \<lparr>ret = - 1, files = fs, trace = [Printed CannotOpenInput]\<rparr>"
  | (no_size) content where "\<not> fopen_in_fails env" "fs inputFile = Some content"
      "\<not> size_known env"
      "r = \<lparr>ret = - 1, files = fs, trace = [OpenedIn, Printed CannotDetermineSize, ClosedIn]\<rparr>"
  | (empty) "\<not> fopen_in_fails env" "fs inputFile = Some []" "size_known env"
      "r = \<lparr>ret = - 1, files = fs, trace = [OpenedIn, Printed InputEmpty, ClosedIn]\<rparr>"
  | (no_output) content where "\<not> fopen_in_fails env" "fs inputFile = Some content"
      "size_known env" "content \<noteq> []" "fopen_out_fails env"
      "r = \<lparr>ret = - 1, files = fs, trace = [OpenedIn, Printed CannotCreateOutput, ClosedIn]\<rparr>"
  | (ran) content s where "\<not> fopen_in_fails env" "fs inputFile = Some content"
      "size_known env" "content \<noteq> []" "\<not> fopen_out_fails env"
      "transform_loop cap env key (strlen key) (length content)
         (initial_session env inputFile outputFile content) = Some s"
      "r = close_files env fs outputFile s"
proof (cases "fopen_in_fails env \<or> fs inputFile = None")
  case True
  with assms no_input show ?thesis
    by (auto simp: encryptFile_chunked_def split: if_splits)
next
  case False
  then obtain content where c: "\<not> fopen_in_fails env" "fs inputFile = Some content" by auto
  show ?thesis
  proof (cases "size_known env")
    case False
    with assms c no_size show ?thesis
      by (simp add: encryptFile_chunked_def getFileSize_unknown)
  next
    case True
    note k = getFileSize_known [OF True, of content]
    show ?thesis
    proof (cases "content = []")
      case True
      with assms c k empty \<open>size_known env\<close> show ?thesis
        by (simp add: encryptFile_chunked_def)
    next
      case ne: False
      show ?thesis
      proof (cases "fopen_out_fails env")
        case True
        with assms c k ne no_output \<open>size_known env\<close> show ?thesis
          by (simp add: encryptFile_chunked_def)
      next
        case False
        with assms c k ne ran \<open>size_known env\<close> show ?thesis
          by (auto simp: encryptFile_chunked_def split: option.splits)
      qed
    qed
  qed
qed

lemma encryptFile_chunked_ran:
  assumes "\<not> fopen_in_fails env" and "fs inputFile = Some content" and "size_known env"
    and "content \<noteq> []" and "\<not> fopen_out_fails env"
  shows "encryptFile_chunked cap env fs inputFile outputFile key =
    map_option (close_files env fs outputFile)
      (transform_loop cap env key (strlen key) (length content)
         (initial_session env inputFile outputFile content))"
  using assms by (simp add: encryptFile_chunked_def getFileSize_known split: option.splits)

lemma encryptFile_chunked_defined:
  assumes "0 < strlen key"
  shows "encryptFile_chunked cap env fs inputFile outputFile key \<noteq> None"
proof -
  have "transform_loop cap env key (strlen key) n s \<noteq> None" for n s
    by (rule loop_defined [OF assms strlen_le])
  then show ?thesis
    unfolding encryptFile_chunked_def Let_def
    by (simp split: option.splits if_splits del: not_None_eq)
qed

lemma ret_close_files:
  "ret (close_files env fs outputFile s) = 0 \<longleftrightarrow>
     result s = 0 \<and> \<not> in_error s \<and> \<not> fclose_out_fails env"
  by (simp add: close_files_def Let_def)

lemma files_close_files:
  "\<not> fclose_out_fails env \<Longrightarrow>
     files (close_files env fs outputFile s) = fs(outputFile \<mapsto> written s)"
  by (simp add: close_files_def Let_def)

text \<open>
  A call that returns 0: what the destination holds. When both names are the same file,
  it holds what was made of the bytes that were in the buffer of \<^verbatim>\<open>inFile\<close>.
\<close>

lemma encryptFile_chunked_returns_0:
  assumes run: "encryptFile_chunked cap env fs inputFile outputFile key = Some r"
    and ok: "ret r = 0" and cap: "0 < cap" and key: "0 < strlen key"
    and src: "fs inputFile = Some D"
  shows "files r = fs(outputFile \<mapsto> chunk_cycling cap key (strlen key)
    (if inputFile = outputFile then take (buffered_at_open env) D else D))"
  using run
proof (cases rule: encryptFile_chunked_cases)
  case (ran content s)
  from ran(7) ok have s: "result s = 0" "\<not> in_error s" "\<not> fclose_out_fails env"
    by (simp_all add: ret_close_files)
  from ran(2) src have "content = D" by simp
  with loop_success_output [OF cap key strlen_le, of env "length content"
      "initial_session env inputFile outputFile content" s] ran(6) s
  have "written s = chunk_cycling cap key (strlen key)
      (if inputFile = outputFile then take (buffered_at_open env) D else D)"
    by (simp add: initial_session_def)
  with ran(7) s(3) show ?thesis by (simp add: files_close_files)
qed (use ok in simp_all)

lemma encryptFile_chunked_success:
  assumes "encryptFile_chunked cap env fs inputFile outputFile key = Some r"
    and "ret r = 0" and "0 < cap" and "0 < strlen key"
    and "fs inputFile = Some D" and "inputFile \<noteq> outputFile"
  shows "files r = fs(outputFile \<mapsto> chunk_cycling cap key (strlen key) D)"
  using encryptFile_chunked_returns_0 [OF assms(1-5)] assms(6) by simp

text \<open>On a file system where nothing fails, the call returns 0.\<close>

lemma encryptFile_chunked_fault_free:
  assumes env: "fault_free env" and cap: "0 < cap" and key: "0 < strlen key"
    and src: "fs inputFile = Some D" and ne: "D \<noteq> []"
  shows "\<exists>r. encryptFile_chunked cap env fs inputFile outputFile key = Some r \<and> ret r = 0"
proof -
  from env have e: "\<not> fopen_in_fails env" "size_known env" "\<not> fopen_out_fails env"
    "fread_error_at env = None" "\<And>i n. n \<le> fwrite_accepts env i n" "\<not> fclose_out_fails env"
    by (simp_all add: fault_free_def size_known_def)
  from loop_fault_free [OF cap key strlen_le e(4,5), of "length D"
      "initial_session env inputFile outputFile D"]
  obtain s where s: "transform_loop cap env key (strlen key) (length D)
      (initial_session env inputFile outputFile D) = Some s" "result s = 0" "\<not> in_error s"
    by (auto simp: initial_session_def)
  with encryptFile_chunked_ran [of env fs inputFile D cap outputFile key, OF e(1) src e(2) ne e(3)] e(6)
  show ?thesis by (simp add: ret_close_files)
qed

section \<open>Key validation, partial writes and closing the files\<close>

lemma validateKey_accepts:
  "fst (validateKey key) = 0 \<longleftrightarrow> 4 \<le> strlen key \<and> strlen key \<le> 126"
  by (auto simp: validateKey_def Let_def MIN_KEY_LENGTH_def MAX_KEY_LENGTH_def)

lemma strlen_ABCD: "strlen [0x41, 0x42, 0x43, 0x44] = 4"
  by (simp add: strlen_def)

lemma fault_free_reliable: "fault_free reliable"
  by (simp add: fault_free_def reliable_def)

lemma close_files_after_loop:
  "\<exists>tail. trace (close_files env fs outputFile s) = events s @ tail \<and>
     list_all (\<lambda>e. \<not> short_write e \<and> \<not> transfers e) tail \<and>
     ClosedIn \<in> set tail \<and> ClosedOut \<in> set tail"
  by (simp add: close_files_def Let_def)

lemma short_write_aborts:
  assumes run: "encryptFile_chunked cap env fs inputFile outputFile key = Some r"
    and tr: "trace r = pre @ Wrote n m # post" and short: "m < n"
  shows "ret r = - 1 \<and> (\<exists>rest. post = Printed WriteFailed # rest) \<and>
    list_all (\<lambda>e. \<not> transfers e) post \<and> ClosedIn \<in> set post \<and> ClosedOut \<in> set post"
proof -
  from tr have mem: "Wrote n m \<in> set (trace r)" by simp
  from run show ?thesis
  proof (cases rule: encryptFile_chunked_cases)
    case (ran content s)
    obtain tail where tail: "trace r = events s @ tail"
      "list_all (\<lambda>e. \<not> short_write e \<and> \<not> transfers e) tail"
      "ClosedIn \<in> set tail" "ClosedOut \<in> set tail"
      using close_files_after_loop [of env fs outputFile s] ran(7) by auto
    from loop_trace [of cap env key "strlen key" "length content"
        "initial_session env inputFile outputFile content" s] ran(6)
    consider (quiet) ext where "events s = [OpenedIn, OpenedOut] @ ext" "list_all orderly ext"
      | (broke) ext n' m' where
          "events s = [OpenedIn, OpenedOut] @ ext @ [Wrote n' m', Printed WriteFailed]"
          "list_all orderly ext" "m' < n'" "result s = - 1"
      by (auto simp: initial_session_def)
    then show ?thesis
    proof cases
      case quiet
      with tail(1,2) have "list_all (\<lambda>e. \<not> short_write e) (trace r)"
        by (auto simp: list_all_iff orderly_not_short)
      with mem short show ?thesis by (auto simp: list_all_iff)
    next
      case broke
      let ?xs = "[OpenedIn, OpenedOut] @ ext" and ?ys = "Printed WriteFailed # tail"
      from broke(1) tail(1) tr have eq: "?xs @ Wrote n' m' # ?ys = pre @ Wrote n m # post"
        by simp
      have q: "short_write (Wrote n m)" using short by simp
      have xs: "list_all (\<lambda>e. \<not> short_write e) ?xs"
        using broke(2) by (auto simp: list_all_iff orderly_not_short)
      have ys: "list_all (\<lambda>e. \<not> short_write e) ?ys"
        using tail(2) by (auto simp: list_all_iff)
      from unique_split [OF eq, of short_write, OF q xs ys] have post: "post = ?ys" by simp
      from ran(7) broke(4) have "ret r = - 1" by (simp add: close_files_def Let_def)
      with post tail(2,3,4) show ?thesis by (auto simp: list_all_iff)
    qed
  qed (use mem in simp_all)
qed

lemma loop_ignores_close [simp]:
  "transform_loop cap (env\<lparr>fclose_in_fails := x\<rparr>) key keyLen fileSize s =
     transform_loop cap env key keyLen fileSize s"
  "transform_loop cap (env\<lparr>fclose_out_fails := x\<rparr>) key keyLen fileSize s =
     transform_loop cap env key keyLen fileSize s"
  by (rule loop_env_cong; simp)+

lemma initial_session_ignores_close [simp]:
  "initial_session (env\<lparr>fclose_in_fails := x\<rparr>) inputFile outputFile content =
     initial_session env inputFile outputFile content"
  "initial_session (env\<lparr>fclose_out_fails := x\<rparr>) inputFile outputFile content =
     initial_session env inputFile outputFile content"
  by (simp_all add: initial_session_def)








section \<open>The claims\<close>

text \<open>
  C1, the round trip. Let \<open>D\<close> be a non-empty source and \<open>K\<close> a key of 1 to 126
  characters. \<^verbatim>\<open>encryptFile\<close> from the source to a second file returns, and returns 0
  when nothing fails; after it has returned 0, \<^verbatim>\<open>decryptFile\<close> (which is
  \<^verbatim>\<open>encryptFile\<close>) with the same key from the second file to a third returns, and returns
  0 when nothing fails; after it has returned 0, the third file holds exactly \<open>D\<close>.
\<close>

theorem round_trip:
  assumes "D \<noteq> []" and "1 \<le> strlen K" and "strlen K \<le> 126"
    and "fs source = Some D" and "source \<noteq> middle" and "middle \<noteq> target"
  shows "\<exists>r1. encryptFile enc_env fs source middle K = Some r1 \<and>
      (fault_free enc_env \<longrightarrow> ret r1 = 0) \<and>
      (ret r1 = 0 \<longrightarrow>
        (\<exists>r2. decryptFile dec_env (files r1) middle target K = Some r2 \<and>
          (fault_free dec_env \<longrightarrow> ret r2 = 0) \<and>
          (ret r2 = 0 \<longrightarrow> files r2 target = Some D)))"
proof -
  let ?c = "chunk_cycling BUFFER_SIZE K (strlen K)"
  from assms(2) have key: "0 < strlen K" by simp
  have cap: "0 < BUFFER_SIZE" by (simp add: BUFFER_SIZE_def)
  from encryptFile_chunked_defined [OF key, of BUFFER_SIZE enc_env fs source middle]
  obtain r1 where r1: "encryptFile_chunked BUFFER_SIZE enc_env fs source middle K = Some r1"
    by auto
  have ff1: "ret r1 = 0" if "fault_free enc_env"
    using encryptFile_chunked_fault_free [where fs = fs and inputFile = source
        and outputFile = middle, OF that cap key assms(4,1)] r1 by simp
  have second: "\<exists>r2. decryptFile dec_env (files r1) middle target K = Some r2 \<and>
          (fault_free dec_env \<longrightarrow> ret r2 = 0) \<and>
          (ret r2 = 0 \<longrightarrow> files r2 target = Some D)" if ok1: "ret r1 = 0"
  proof -
    from encryptFile_chunked_success [OF r1 ok1 cap key assms(4,5)]
    have mid: "files r1 middle = Some (?c D)" by simp
    from assms(1) have ne: "?c D \<noteq> []" by (simp add: chunk_cycling_def)
    from encryptFile_chunked_defined [OF key, of BUFFER_SIZE dec_env "files r1" middle target]
    obtain r2 where r2: "encryptFile_chunked BUFFER_SIZE dec_env (files r1) middle target K = Some r2"
      by auto
    have ff2: "ret r2 = 0" if "fault_free dec_env"
      using encryptFile_chunked_fault_free [where fs = "files r1" and inputFile = middle
          and outputFile = target, OF that cap key mid ne] r2 by simp
    have "files r2 target = Some D" if ok2: "ret r2 = 0"
      using encryptFile_chunked_success [OF r2 ok2 cap key mid assms(6)]
      by (simp add: chunk_cycling_involution)
    with r2 ff2 show ?thesis by (simp add: decryptFile_def encryptFile_def)
  qed
  from r1 ff1 second show ?thesis by (simp add: encryptFile_def)
qed

theorem round_trip_witness:
  "\<exists>r1 r2. encryptFile reliable [''plain'' \<mapsto> [1, 2, 3, 4, 5]] ''plain'' ''secret''
         [0x41, 0x42, 0x43, 0x44] = Some r1 \<and> ret r1 = 0 \<and>
     files r1 ''secret'' = Some [0x40, 0x40, 0x40, 0x40, 0x44] \<and>
     decryptFile reliable (files r1) ''secret'' ''back'' [0x41, 0x42, 0x43, 0x44] = Some r2 \<and>
     ret r2 = 0 \<and> files r2 ''back'' = Some [1, 2, 3, 4, 5]"
proof -
  let ?fs = "[''plain'' \<mapsto> [1, 2, 3, 4, 5 :: byte]]"
  let ?key = "[0x41, 0x42, 0x43, 0x44] :: byte list"
  have h: "[1, 2, 3, 4, 5 :: byte] \<noteq> []" "1 \<le> strlen ?key" "strlen ?key \<le> 126"
    "?fs ''plain'' = Some [1, 2, 3, 4, 5]" "''plain'' \<noteq> ''secret''" "''secret'' \<noteq> ''back''"
    by (simp_all add: strlen_ABCD)
  from round_trip [where fs = ?fs and source = "''plain''" and enc_env = reliable
      and dec_env = reliable, OF h] fault_free_reliable
  obtain r1 r2 where r: "encryptFile reliable ?fs ''plain'' ''secret'' ?key = Some r1" "ret r1 = 0"
    "decryptFile reliable (files r1) ''secret'' ''back'' ?key = Some r2" "ret r2 = 0"
    "files r2 ''back'' = Some [1, 2, 3, 4, 5]"
    by auto
  have "map_option (\<lambda>r. files r ''secret'') (encryptFile reliable ?fs ''plain'' ''secret'' ?key) =
      Some (Some [0x40, 0x40, 0x40, 0x40, 0x44])"
    by code_simp
  with r(1) have "files r1 ''secret'' = Some [0x40, 0x40, 0x40, 0x40, 0x44]" by simp
  with r show ?thesis by blast
qed

text \<open>
  C2, the capacity of the buffer. The output depends on the capacity: with the key \<open>ABCD\<close>
  and the source 0x00 0x00, a buffer of one byte gives 0x41 0x41 (every call of
  \<^verbatim>\<open>xorCipher\<close> starts again at the first key byte) and a buffer of three bytes, one more
  than the source, gives 0x41 0x42.
\<close>

theorem capacity_changes_output:
  "ret (the (encryptFile_chunked 1 reliable [''in'' \<mapsto> [0, 0]] ''in'' ''out''
      [0x41, 0x42, 0x43, 0x44])) = 0 \<and>
   files (the (encryptFile_chunked 1 reliable [''in'' \<mapsto> [0, 0]] ''in'' ''out''
      [0x41, 0x42, 0x43, 0x44])) ''out'' = Some [0x41, 0x41] \<and>
   ret (the (encryptFile_chunked (length [0, 0 :: byte] + 1) reliable [''in'' \<mapsto> [0, 0]]
      ''in'' ''out'' [0x41, 0x42, 0x43, 0x44])) = 0 \<and>
   files (the (encryptFile_chunked (length [0, 0 :: byte] + 1) reliable [''in'' \<mapsto> [0, 0]]
      ''in'' ''out'' [0x41, 0x42, 0x43, 0x44])) ''out'' = Some [0x41, 0x42] \<and>
   files (the (encryptFile_chunked 1 reliable [''in'' \<mapsto> [0, 0]] ''in'' ''out''
      [0x41, 0x42, 0x43, 0x44])) ''out'' \<noteq>
   files (the (encryptFile_chunked (length [0, 0 :: byte] + 1) reliable [''in'' \<mapsto> [0, 0]]
      ''in'' ''out'' [0x41, 0x42, 0x43, 0x44])) ''out''"
  by code_simp

text \<open>
  C2 as amended. On a file system where nothing fails, for a non-empty source \<open>D\<close>, a key
  of at least one character and a capacity \<open>cap > 0\<close> that the key length divides or
  that is at least the length of \<open>D\<close>: the loop with capacity \<open>cap\<close> and the loop with
  capacity \<open>length D + 1\<close> both return 0 and leave the same files, the destination holding
  \<open>D\<close> under global cycling.
\<close>

theorem capacity_invariance:
  assumes "fault_free env" and "fs inputFile = Some D" and "D \<noteq> []" and "0 < strlen key"
    and "inputFile \<noteq> outputFile" and "0 < cap" and "strlen key dvd cap \<or> length D \<le> cap"
  shows "\<exists>r r'. encryptFile_chunked cap env fs inputFile outputFile key = Some r \<and> ret r = 0 \<and>
    encryptFile_chunked (length D + 1) env fs inputFile outputFile key = Some r' \<and> ret r' = 0 \<and>
    files r = files r' \<and> files r outputFile = Some (global_cycling key (strlen key) D)"
proof -
  from encryptFile_chunked_fault_free [where fs = fs and inputFile = inputFile
      and outputFile = outputFile, OF assms(1,6,4,2,3)]
  obtain r where r: "encryptFile_chunked cap env fs inputFile outputFile key = Some r" "ret r = 0"
    by blast
  have one: "0 < length D + 1" by simp
  from encryptFile_chunked_fault_free [where fs = fs and inputFile = inputFile
      and outputFile = outputFile, OF assms(1) one assms(4,2,3)]
  obtain r' where r': "encryptFile_chunked (length D + 1) env fs inputFile outputFile key = Some r'"
    "ret r' = 0"
    by blast
  from encryptFile_chunked_success [OF r assms(6,4,2,5)] assms(7)
  have f: "files r = fs(outputFile \<mapsto> global_cycling key (strlen key) D)"
    by (simp add: chunk_cycling_global)
  from encryptFile_chunked_success [OF r' one assms(4,2,5)]
  have "files r' = fs(outputFile \<mapsto> global_cycling key (strlen key) D)"
    by (simp add: chunk_cycling_global)
  with f r r' show ?thesis by simp
qed

theorem capacity_invariance_witness:
  "\<exists>r r'. encryptFile_chunked 4096 reliable [''in'' \<mapsto> [0, 0, 0, 0, 0]] ''in'' ''out''
        [0x41, 0x42, 0x43, 0x44] = Some r \<and> ret r = 0 \<and>
     encryptFile_chunked (length [0, 0, 0, 0, 0 :: byte] + 1) reliable
        [''in'' \<mapsto> [0, 0, 0, 0, 0]] ''in'' ''out'' [0x41, 0x42, 0x43, 0x44] = Some r' \<and> ret r' = 0 \<and>
     files r = files r' \<and> files r ''out'' = Some [0x41, 0x42, 0x43, 0x44, 0x41]"
proof -
  let ?fs = "[''in'' \<mapsto> [0, 0, 0, 0, 0 :: byte]]"
  let ?key = "[0x41, 0x42, 0x43, 0x44] :: byte list"
  have h: "?fs ''in'' = Some [0, 0, 0, 0, 0]" "[0, 0, 0, 0, 0 :: byte] \<noteq> []" "0 < strlen ?key"
    "''in'' \<noteq> ''out''" "0 < (4096 :: nat)"
    "strlen ?key dvd 4096 \<or> length [0, 0, 0, 0, 0 :: byte] \<le> 4096"
    by (simp_all add: strlen_ABCD)
  have g: "global_cycling ?key (strlen ?key) [0, 0, 0, 0, 0] = [0x41, 0x42, 0x43, 0x44, 0x41]"
    unfolding strlen_ABCD by code_simp
  from capacity_invariance [where fs = ?fs and inputFile = "''in''" and outputFile = "''out''",
      OF fault_free_reliable h]
  show ?thesis unfolding g .
qed

text \<open>
  C3, key cycling across a chunk boundary. With the key \<open>AB\<close> (bytes 0x41 0x42) and the data
  0x00 0x00 0x00, \<^verbatim>\<open>xorCipher\<close> called on the first two bytes and then on the third gives
  0x41 0x42 and 0x41, and called once on the three bytes it gives 0x41 0x42 0x41: the
  same bytes. The loop of \<^verbatim>\<open>encryptFile\<close> with a buffer of two bytes makes exactly these
  two calls and writes 0x41 0x42 0x41.
\<close>

theorem key_cycling_across_boundary:
  "xorCipher [0, 0] [0x41, 0x42] 2 = Some [0x41, 0x42] \<and>
   xorCipher [0] [0x41, 0x42] 2 = Some [0x41] \<and>
   xorCipher [0, 0, 0] [0x41, 0x42] 2 = Some [0x41, 0x42, 0x41] \<and>
   map_option (\<lambda>r. (ret r, files r ''out'', trace r))
       (encryptFile_chunked 2 reliable [''in'' \<mapsto> [0, 0, 0]] ''in'' ''out'' [0x41, 0x42]) =
     Some (0, Some [0x41, 0x42, 0x41],
       [OpenedIn, OpenedOut, Read 2, Wrote 2 2, Progress 2 3, Read 1, Wrote 1 1,
        Progress 3 3, Read 0, ClosedIn, ClosedOut])"
  by code_simp

text \<open>
  C4, an empty source is rejected. When the source file has no bytes, \<^verbatim>\<open>encryptFile\<close>
  returns -1 whatever the key, leaves every file as it was and never opens the
  destination; when the source could be opened and its size read, what it prints is the
  warning that the input file is empty, between opening and closing the source.
\<close>

theorem empty_source_rejected:
  assumes "fs inputFile = Some []"
  shows "\<exists>r. encryptFile env fs inputFile outputFile key = Some r \<and> ret r = - 1 \<and>
    files r = fs \<and> OpenedOut \<notin> set (trace r) \<and>
    (\<not> fopen_in_fails env \<and> size_known env \<longrightarrow>
       trace r = [OpenedIn, Printed InputEmpty, ClosedIn])"
proof (cases "fopen_in_fails env")
  case True
  then show ?thesis by (simp add: encryptFile_def encryptFile_chunked_def)
next
  case False
  show ?thesis
  proof (cases "size_known env")
    case True
    with False assms show ?thesis
      by (simp add: encryptFile_def encryptFile_chunked_def getFileSize_known)
  next
    case no: False
    with False assms show ?thesis
      by (simp add: encryptFile_def encryptFile_chunked_def getFileSize_unknown)
  qed
qed

theorem empty_source_rejected_witness:
  "\<exists>r. encryptFile reliable [''in'' \<mapsto> []] ''in'' ''out'' [0x41, 0x42, 0x43, 0x44] = Some r \<and>
     ret r = - 1 \<and> files r ''out'' = None \<and> files r ''in'' = Some [] \<and>
     trace r = [OpenedIn, Printed InputEmpty, ClosedIn]"
proof -
  have "[''in'' \<mapsto> []] ''in'' = Some ([] :: byte list)" by simp
  from empty_source_rejected [where fs = "[''in'' \<mapsto> []]" and inputFile = "''in''"
      and env = reliable and outputFile = "''out''" and key = "[0x41, 0x42, 0x43, 0x44]", OF this]
  obtain r where r: "encryptFile reliable [''in'' \<mapsto> []] ''in'' ''out'' [0x41, 0x42, 0x43, 0x44] = Some r"
    "ret r = - 1" "files r = [''in'' \<mapsto> []]"
    "\<not> fopen_in_fails reliable \<and> size_known reliable \<longrightarrow>
       trace r = [OpenedIn, Printed InputEmpty, ClosedIn]"
    by blast
  from r(4) have "trace r = [OpenedIn, Printed InputEmpty, ClosedIn]"
    by (simp add: reliable_def size_known_def)
  with r(1,2,3) show ?thesis by simp
qed

text \<open>
  C5, the size is preserved. When \<^verbatim>\<open>encryptFile\<close> returns 0 for a source and a
  destination that are different files, with a key of at least one character, the
  destination holds exactly as many bytes as the source. (A call on an empty source does
  not return 0; that the two names differ is what \<^verbatim>\<open>main\<close> checks before the call.)
\<close>

theorem size_preserved:
  assumes "encryptFile env fs inputFile outputFile key = Some r" and "ret r = 0"
    and "0 < strlen key" and "fs inputFile = Some D" and "inputFile \<noteq> outputFile"
  shows "\<exists>E. files r outputFile = Some E \<and> length E = length D"
proof -
  from assms(1) have "encryptFile_chunked BUFFER_SIZE env fs inputFile outputFile key = Some r"
    by (simp add: encryptFile_def)
  from encryptFile_chunked_success [OF this assms(2) _ assms(3,4,5)]
  have "files r = fs(outputFile \<mapsto> chunk_cycling BUFFER_SIZE key (strlen key) D)"
    by (simp add: BUFFER_SIZE_def)
  then show ?thesis by simp
qed

theorem size_preserved_witness:
  "\<exists>r E. encryptFile reliable [''in'' \<mapsto> [1, 2, 3, 4, 5]] ''in'' ''out'' [0x41, 0x42, 0x43, 0x44] = Some r \<and>
     ret r = 0 \<and> files r ''out'' = Some E \<and> length E = 5"
proof -
  let ?fs = "[''in'' \<mapsto> [1, 2, 3, 4, 5 :: byte]]"
  let ?key = "[0x41, 0x42, 0x43, 0x44] :: byte list"
  have src: "?fs ''in'' = Some [1, 2, 3, 4, 5]" and ne: "[1, 2, 3, 4, 5 :: byte] \<noteq> []"
    and key: "0 < strlen ?key" and distinct: "''in'' \<noteq> ''out''"
    by (simp_all add: strlen_ABCD)
  from encryptFile_chunked_fault_free [where fs = ?fs and inputFile = "''in''" and cap = BUFFER_SIZE
      and outputFile = "''out''", OF fault_free_reliable _ key src ne]
  obtain r where r: "encryptFile reliable ?fs ''in'' ''out'' ?key = Some r" "ret r = 0"
    by (auto simp: encryptFile_def BUFFER_SIZE_def)
  from size_preserved [OF r key src distinct] r show ?thesis by auto
qed

text \<open>
  C6, decryption is encryption. For every file system, every pair of file names and every
  key, \<^verbatim>\<open>decryptFile\<close> returns what \<^verbatim>\<open>encryptFile\<close> returns on the same arguments: the
  same return value, the same files, the same calls.
\<close>

theorem decryptFile_is_encryptFile:
  "decryptFile env fs inputFile outputFile key = encryptFile env fs inputFile outputFile key"
  by (simp add: decryptFile_def)

text \<open>
  C7, the bounds of the key length. \<^verbatim>\<open>validateKey\<close> rejects a key of 127 characters, and
  the message it prints then says that the maximum is 127 characters. The keys it accepts
  are those of 4 to 126 characters (lemma \<open>validateKey_accepts\<close>).
\<close>

theorem validateKey_rejects_127:
  "strlen (replicate 127 0x41) = 127 \<and>
   validateKey (replicate 127 0x41) = (- 1, [KeyTooLong 127]) \<and>
   validateKey (replicate 126 0x41) = (0, [])"
  by (simp add: validateKey_def strlen_def MIN_KEY_LENGTH_def MAX_KEY_LENGTH_def)

text \<open>
  C8, a partial write is detected. Whenever an \<^verbatim>\<open>fwrite\<close> of \<^verbatim>\<open>encryptFile\<close> returns
  fewer bytes than it was asked to write, \<^verbatim>\<open>encryptFile\<close> returns -1; the next thing it
  does is to print that the write failed; after that write there is no \<^verbatim>\<open>fread\<close> and no
  \<^verbatim>\<open>fwrite\<close>, and both the source and the destination are closed.
\<close>

theorem partial_write_detected:
  assumes "encryptFile env fs inputFile outputFile key = Some r"
    and "trace r = pre @ Wrote n m # post" and "m < n"
  shows "ret r = - 1 \<and> (\<exists>rest. post = Printed WriteFailed # rest) \<and>
    list_all (\<lambda>e. \<not> transfers e) post \<and> ClosedIn \<in> set post \<and> ClosedOut \<in> set post"
  using assms unfolding encryptFile_def by (rule short_write_aborts)

theorem partial_write_detected_witness:
  "\<exists>r. encryptFile (reliable\<lparr>fwrite_accepts := (\<lambda>i n. 1)\<rparr>) [''in'' \<mapsto> [0, 0, 0]] ''in'' ''out''
        [0x41, 0x42, 0x43, 0x44] = Some r \<and>
     trace r = [OpenedIn, OpenedOut, Read 3] @ Wrote 3 1 # [Printed WriteFailed, ClosedIn, ClosedOut] \<and>
     files r ''out'' = Some [0x41] \<and> ret r = - 1 \<and>
     list_all (\<lambda>e. \<not> transfers e) [Printed WriteFailed, ClosedIn, ClosedOut]"
proof -
  let ?env = "reliable\<lparr>fwrite_accepts := (\<lambda>i n. 1)\<rparr>"
  let ?fs = "[''in'' \<mapsto> [0, 0, 0 :: byte]]"
  let ?key = "[0x41, 0x42, 0x43, 0x44] :: byte list"
  from encryptFile_chunked_defined [of ?key BUFFER_SIZE ?env ?fs "''in''" "''out''"]
  obtain r where r: "encryptFile ?env ?fs ''in'' ''out'' ?key = Some r"
    by (auto simp: strlen_ABCD encryptFile_def)
  have "map_option (\<lambda>r. (trace r, files r ''out'')) (encryptFile ?env ?fs ''in'' ''out'' ?key) =
      Some ([OpenedIn, OpenedOut, Read 3] @ Wrote 3 1 # [Printed WriteFailed, ClosedIn, ClosedOut],
        Some [0x41])"
    by code_simp
  with r have t: "trace r = [OpenedIn, OpenedOut, Read 3] @ Wrote 3 1 #
      [Printed WriteFailed, ClosedIn, ClosedOut]" and f: "files r ''out'' = Some [0x41]"
    by simp_all
  have "(1 :: nat) < 3" by simp
  from partial_write_detected [OF r t this] r t f show ?thesis by blast
qed




text \<open>
  C10, the bytes that are written. When \<^verbatim>\<open>encryptFile\<close> returns 0 for a source \<open>D\<close> and a
  different destination, with a key of \<open>keyLen > 0\<close> characters, the byte at position
  \<open>j\<close> of the destination is the byte at position \<open>j\<close> of \<open>D\<close> combined by exclusive or
  with the key byte at \<open>(j mod 4096) mod keyLen\<close>, and the destination has the length of
  \<open>D\<close>. That index is \<open>j mod keyLen\<close> at every position exactly when \<open>keyLen\<close> divides
  4096, and then the destination holds \<open>D\<close> under global cycling.
\<close>

theorem written_bytes:
  assumes "encryptFile env fs inputFile outputFile key = Some r" and "ret r = 0"
    and "0 < strlen key" and "fs inputFile = Some D" and "inputFile \<noteq> outputFile"
  shows "files r outputFile =
      Some (map (\<lambda>j. D ! j XOR key ! ((j mod 4096) mod strlen key)) [0..<length D]) \<and>
    ((\<forall>j. (j mod BUFFER_SIZE) mod strlen key = j mod strlen key) \<longleftrightarrow>
       strlen key dvd BUFFER_SIZE) \<and>
    (strlen key dvd BUFFER_SIZE \<longrightarrow>
       files r outputFile = Some (global_cycling key (strlen key) D))"
proof -
  from assms(1) have "encryptFile_chunked BUFFER_SIZE env fs inputFile outputFile key = Some r"
    by (simp add: encryptFile_def)
  from encryptFile_chunked_success [OF this assms(2) _ assms(3,4,5)]
  have f: "files r outputFile = Some (chunk_cycling BUFFER_SIZE key (strlen key) D)"
    by (simp add: BUFFER_SIZE_def)
  have i: "(\<forall>j. (j mod BUFFER_SIZE) mod strlen key = j mod strlen key) \<longleftrightarrow>
      strlen key dvd BUFFER_SIZE"
  proof
    assume "\<forall>j. (j mod BUFFER_SIZE) mod strlen key = j mod strlen key"
    then have "(BUFFER_SIZE mod BUFFER_SIZE) mod strlen key = BUFFER_SIZE mod strlen key" ..
    then show "strlen key dvd BUFFER_SIZE" by (simp add: dvd_eq_mod_eq_0)
  next
    assume "strlen key dvd BUFFER_SIZE"
    then show "\<forall>j. (j mod BUFFER_SIZE) mod strlen key = j mod strlen key"
      by (simp add: mod_mod_cancel)
  qed
  from f have "files r outputFile =
      Some (map (\<lambda>j. D ! j XOR key ! ((j mod 4096) mod strlen key)) [0..<length D])"
    by (simp add: chunk_cycling_def BUFFER_SIZE_def)
  with f i show ?thesis by (simp add: chunk_cycling_global)
qed

theorem written_bytes_witness:
  "\<exists>r. encryptFile reliable [''in'' \<mapsto> [1, 2, 3, 4, 5]] ''in'' ''out'' [0x41, 0x42, 0x43, 0x44] = Some r \<and>
     ret r = 0 \<and> files r ''out'' = Some [0x40, 0x40, 0x40, 0x40, 0x44] \<and>
     strlen [0x41, 0x42, 0x43, 0x44 :: byte] dvd BUFFER_SIZE"
proof -
  let ?fs = "[''in'' \<mapsto> [1, 2, 3, 4, 5 :: byte]]"
  let ?key = "[0x41, 0x42, 0x43, 0x44] :: byte list"
  have src: "?fs ''in'' = Some [1, 2, 3, 4, 5]" and ne: "[1, 2, 3, 4, 5 :: byte] \<noteq> []"
    and key: "0 < strlen ?key" and distinct: "''in'' \<noteq> ''out''"
    by (simp_all add: strlen_ABCD)
  from encryptFile_chunked_fault_free [where fs = ?fs and inputFile = "''in''" and cap = BUFFER_SIZE
      and outputFile = "''out''", OF fault_free_reliable _ key src ne]
  obtain r where r: "encryptFile reliable ?fs ''in'' ''out'' ?key = Some r" "ret r = 0"
    by (auto simp: encryptFile_def BUFFER_SIZE_def)
  have "map (\<lambda>j. [1, 2, 3, 4, 5] ! j XOR ?key ! ((j mod 4096) mod 4)) [0..<length [1, 2, 3, 4, 5 :: byte]] =
      [0x40, 0x40, 0x40, 0x40, 0x44]"
    by code_simp
  with written_bytes [OF r key src distinct, THEN conjunct1]
  have "files r ''out'' = Some [0x40, 0x40, 0x40, 0x40, 0x44]"
    unfolding strlen_ABCD by simp
  with r show ?thesis by (simp add: strlen_ABCD BUFFER_SIZE_def)
qed

end
